theory Spec2Isabelle
  imports Complex_Main "HOL-Library.Multiset"
begin

section \<open>Python runtime pieces used by Main.py\<close>

text \<open>
  The exceptions that the modelled statements of \<^verbatim>\<open>Main.py\<close> can raise.
  Python floats are modelled as exact real numbers, Python ints as \<^typ>\<open>int\<close>;
  overflow of the float range is outside this model.
\<close>

datatype error = ValueError | IndexError | ZeroDivisionError

definition ebind :: "error + 'a \<Rightarrow> ('a \<Rightarrow> error + 'b) \<Rightarrow> error + 'b" where
  "ebind m f = (case m of Inl e \<Rightarrow> Inl e | Inr x \<Rightarrow> f x)"

text \<open>\<^verbatim>\<open>xs[i]\<close>: a negative index counts from the end, anything outside raises.\<close>

definition py_index :: "'a list \<Rightarrow> int \<Rightarrow> error + 'a" where
  "py_index xs i =
     (if 0 \<le> i \<and> i < int (length xs) then Inr (xs ! nat i)
      else if - int (length xs) \<le> i \<and> i < 0 then Inr (xs ! nat (int (length xs) + i))
      else Inl IndexError)"

text \<open>\<^verbatim>\<open>xs.remove(x)\<close>: deletes the first occurrence, raises when there is none.\<close>

definition py_remove :: "'a list \<Rightarrow> 'a \<Rightarrow> error + 'a list" where
  "py_remove xs x = (if x \<in> set xs then Inr (remove1 x xs) else Inl ValueError)"

text \<open>\<^verbatim>\<open>xs.index(v)\<close>: position of the first element equal to \<open>v\<close>.\<close>

fun first_pos :: "'a list \<Rightarrow> 'a \<Rightarrow> nat option" where
  "first_pos [] v = None"
| "first_pos (x # xs) v = (if x = v then Some 0 else map_option Suc (first_pos xs v))"

definition py_list_index :: "'a list \<Rightarrow> 'a \<Rightarrow> error + int" where
  "py_list_index xs v = (case first_pos xs v of None \<Rightarrow> Inl ValueError | Some k \<Rightarrow> Inr (int k))"

text \<open>\<^verbatim>\<open>min(xs)\<close> of a list: raises on the empty list.\<close>

definition py_min :: "real list \<Rightarrow> error + real" where
  "py_min xs = (case xs of [] \<Rightarrow> Inl ValueError | y # ys \<Rightarrow> Inr (fold min ys y))"

text \<open>\<^verbatim>\<open>round(x, 4)\<close>: nearest multiple of \<open>1/10000\<close>, a tie going to the even one.\<close>

definition round_half_even :: "real \<Rightarrow> int" where
  "round_half_even y =
     (let f = \<lfloor>y\<rfloor>; d = y - of_int f in
        if d < 1 / 2 then f else if 1 / 2 < d then f + 1 else if even f then f else f + 1)"

definition round4 :: "real \<Rightarrow> real" where
  "round4 x = of_int (round_half_even (x * 10000)) / 10000"

text \<open>
  The random source. \<^verbatim>\<open>random.randint(a, b)\<close> raises on an empty range and
  otherwise returns some integer of \<open>[a, b]\<close>; the raw draw \<open>r\<close> selects which one, and
  every integer of the range is selected by some \<open>r\<close>. \<^verbatim>\<open>random.random()\<close> returns
  some real of \<open>[0, 1)\<close>, selected by the raw draw \<open>u\<close>.
\<close>

definition randint :: "int \<Rightarrow> int \<Rightarrow> nat \<Rightarrow> error + int" where
  "randint a b r = (if b < a then Inl ValueError else Inr (a + int (r mod nat (b - a + 1))))"

definition random_unit :: "real \<Rightarrow> real" where
  "random_unit u = frac u"

section \<open>Reading the coordinates\<close>

type_synonym point = "int \<times> int"

text \<open>
  \<^verbatim>\<open>get_coordinates\<close> turns every line of the file into the pair of its first two fields.
  The built-ins \<^verbatim>\<open>str.split\<close> and \<^verbatim>\<open>int\<close> are parameters: \<open>split_fields\<close> gives the
  fields of a line, \<open>int_of\<close> the integer a field denotes, \<open>None\<close> where \<^verbatim>\<open>int\<close> raises.
\<close>

definition py_int :: "(string \<Rightarrow> int option) \<Rightarrow> string \<Rightarrow> error + int" where
  "py_int int_of s = (case int_of s of None \<Rightarrow> Inl ValueError | Some v \<Rightarrow> Inr v)"

fun get_coordinates ::
  "(string \<Rightarrow> string list) \<Rightarrow> (string \<Rightarrow> int option) \<Rightarrow> string list \<Rightarrow> error + point list" where
  "get_coordinates split_fields int_of [] = Inr []"
| "get_coordinates split_fields int_of (each_line # rest) =
     ebind (py_index (split_fields each_line) 0) (\<lambda>field0.
     ebind (py_int int_of field0) (\<lambda>x.
     ebind (py_index (split_fields each_line) 1) (\<lambda>field1.
     ebind (py_int int_of field1) (\<lambda>y.
     ebind (get_coordinates split_fields int_of rest) (\<lambda>coordinates.
     Inr ((x, y) # coordinates))))))"

section \<open>Distance matrix\<close>

text \<open>\<^verbatim>\<open>round(math.sqrt(math.pow(i[0] - j[0], 2) + math.pow(i[1] - j[1], 2)), 4)\<close>\<close>

definition i_to_j :: "point \<Rightarrow> point \<Rightarrow> real" where
  "i_to_j i j = round4 (sqrt ((of_int (fst i - fst j))\<^sup>2 + (of_int (snd i - snd j))\<^sup>2))"

definition get_distances_list :: "point list \<Rightarrow> real list list" where
  "get_distances_list coordinates = map (\<lambda>i. map (\<lambda>j. i_to_j i j) coordinates) coordinates"

section \<open>Tour length\<close>

text \<open>\<^verbatim>\<open>distances_list[a][b]\<close>\<close>

definition lookup2 :: "real list list \<Rightarrow> int \<Rightarrow> int \<Rightarrow> error + real" where
  "lookup2 distances_list a b = ebind (py_index distances_list a) (\<lambda>row. py_index row b)"

text \<open>The body of the \<^verbatim>\<open>for i in range(num_coordinates)\<close> loop of \<^verbatim>\<open>get_efficiency\<close>.\<close>

fun efficiency_loop :: "int list \<Rightarrow> real list list \<Rightarrow> nat list \<Rightarrow> real \<Rightarrow> error + real" where
  "efficiency_loop solution distances_list [] efficiency = Inr efficiency"
| "efficiency_loop solution distances_list (i # rest) efficiency =
     (if 0 < i then
        ebind (py_index solution (int i - 1)) (\<lambda>a.
        ebind (py_index distances_list a) (\<lambda>row.
        ebind (py_index solution (int i)) (\<lambda>b.
        ebind (py_index row b) (\<lambda>d.
        efficiency_loop solution distances_list rest (efficiency + d)))))
      else efficiency_loop solution distances_list rest efficiency)"

definition get_efficiency :: "int list \<Rightarrow> real list list \<Rightarrow> nat \<Rightarrow> error + real" where
  "get_efficiency solution distances_list num_coordinates =
     ebind (efficiency_loop solution distances_list [0..<num_coordinates] 0) (\<lambda>efficiency.
     ebind (py_index solution 0) (\<lambda>a.
     ebind (py_index distances_list a) (\<lambda>row.
     ebind (py_index solution (int num_coordinates - 1)) (\<lambda>b.
     ebind (py_index row b) (\<lambda>d.
     Inr (round4 (efficiency + d)))))))"

section \<open>Greedy initial tour\<close>

text \<open>The list comprehension loop \<^verbatim>\<open>for i in temp_list: distances.append(dist_matrix[current_node][i])\<close>.\<close>

fun collect_distances :: "real list list \<Rightarrow> int \<Rightarrow> int list \<Rightarrow> error + real list" where
  "collect_distances dist_matrix current_node [] = Inr []"
| "collect_distances dist_matrix current_node (i # rest) =
     ebind (lookup2 dist_matrix current_node i) (\<lambda>d.
     ebind (collect_distances dist_matrix current_node rest) (\<lambda>ds. Inr (d # ds)))"

text \<open>
  One pass of the \<^verbatim>\<open>for _ in range(len(temp_list))\<close> loop: the new current node and the
  shortened \<^verbatim>\<open>temp_list\<close>. The index is looked up in the whole row
  \<^verbatim>\<open>dist_matrix[current_node]\<close>, as the source does.
\<close>

definition greedy_step :: "real list list \<Rightarrow> int \<Rightarrow> int list \<Rightarrow> error + (int \<times> int list)" where
  "greedy_step dist_matrix current_node temp_list =
     ebind (collect_distances dist_matrix current_node temp_list) (\<lambda>distances.
     ebind (py_index dist_matrix current_node) (\<lambda>row.
     ebind (py_min distances) (\<lambda>least.
     ebind (py_list_index row least) (\<lambda>next_node.
     ebind (py_remove temp_list next_node) (\<lambda>temp_list'.
     Inr (next_node, temp_list'))))))"

fun greedy_loop :: "real list list \<Rightarrow> nat \<Rightarrow> int \<Rightarrow> int list \<Rightarrow> int list \<Rightarrow> error + int list" where
  "greedy_loop dist_matrix 0 current_node temp_list solution = Inr solution"
| "greedy_loop dist_matrix (Suc k) current_node temp_list solution =
     ebind (greedy_step dist_matrix current_node temp_list) (\<lambda>(next_node, temp_list').
     greedy_loop dist_matrix k next_node temp_list' (solution @ [next_node]))"

text \<open>\<open>r\<close> is the raw draw behind \<^verbatim>\<open>random.randint(0, len(coordinates))\<close>.\<close>

definition get_initial_solution :: "real list list \<Rightarrow> point list \<Rightarrow> nat \<Rightarrow> error + int list" where
  "get_initial_solution dist_matrix coordinates r =
     ebind (randint 0 (int (length coordinates)) r) (\<lambda>current_node.
     ebind (py_remove [0..int (length coordinates) - 1] current_node) (\<lambda>temp_list.
     greedy_loop dist_matrix (length temp_list) current_node temp_list [current_node]))"

section \<open>Simulated annealing\<close>

definition get_probability :: "real \<Rightarrow> real \<Rightarrow> real \<Rightarrow> error + real" where
  "get_probability candidate_efficiency current_efficiency temperature =
     (if temperature = 0 then Inl ZeroDivisionError
      else Inr (exp (- \<bar>candidate_efficiency - current_efficiency\<bar> / temperature)))"


record sa_state =
  temperature :: real
  current_efficiency :: real
  best_efficiency :: real
  efficiency_list :: "real list"
  best_solution :: "int list"
  current_solution :: "int list"
  iter :: nat

text \<open>
  \<^verbatim>\<open>candidate[num_b:(num_b + num_a)] = reversed(candidate[num_b:(num_b + num_a)])\<close> on a copy
  of the current tour; both bounds are non-negative here, and a slice is cut off at
  the end of the list.
\<close>

definition reverse_segment :: "int list \<Rightarrow> int \<Rightarrow> int \<Rightarrow> int list" where
  "reverse_segment candidate num_b num_a =
     take (nat num_b) candidate
       @ rev (take (nat num_a) (drop (nat num_b) candidate))
       @ drop (nat num_b + nat num_a) candidate"

text \<open>The two draws and the reversal; \<open>n\<close> is \<^verbatim>\<open>len(coordinates)\<close>.\<close>

definition perturb :: "nat \<Rightarrow> int list \<Rightarrow> nat \<Rightarrow> nat \<Rightarrow> error + int list" where
  "perturb n solution ra rb =
     ebind (randint 2 (int n - 1) ra) (\<lambda>num_a.
     ebind (randint 0 (int n - num_a) rb) (\<lambda>num_b.
     Inr (reverse_segment solution num_b num_a)))"

text \<open>
  The body of the \<^verbatim>\<open>while\<close> loop up to \<^verbatim>\<open>efficiency_list.append\<close>; the counter
  \<^verbatim>\<open>i += 1\<close> is advanced by the loop below. \<open>(ra, rb, u)\<close> are the raw draws of this
  iteration.
\<close>

definition sa_body :: "nat \<Rightarrow> real list list \<Rightarrow> nat \<times> nat \<times> real \<Rightarrow> sa_state \<Rightarrow> error + sa_state" where
  "sa_body n distances_list draws st =
     (case draws of (ra, rb, u) \<Rightarrow>
     ebind (perturb n (current_solution st) ra rb) (\<lambda>candidate.
     ebind (get_efficiency candidate distances_list n) (\<lambda>candidate_efficiency.
     ebind
       (if candidate_efficiency < current_efficiency st then
          (let st1 = st\<lparr>current_efficiency := candidate_efficiency, current_solution := candidate\<rparr>
           in if candidate_efficiency < best_efficiency st
              then Inr (st1\<lparr>best_efficiency := candidate_efficiency, best_solution := candidate\<rparr>)
              else Inr st1)
        else
          ebind (get_probability candidate_efficiency (current_efficiency st) (temperature st)) (\<lambda>p.
          if random_unit u < p
          then Inr (st\<lparr>current_efficiency := candidate_efficiency, current_solution := candidate\<rparr>)
          else Inr st))
       (\<lambda>st2. Inr (st2\<lparr>temperature := temperature st2 * 0.995,
                         efficiency_list := efficiency_list st2 @ [current_efficiency st2]\<rparr>)))))"

definition sa_continue :: "sa_state \<Rightarrow> bool" where
  "sa_continue st \<longleftrightarrow> 0 < temperature st \<and> iter st < 100000"

function sa_loop :: "nat \<Rightarrow> real list list \<Rightarrow> (nat \<Rightarrow> nat \<times> nat \<times> real) \<Rightarrow> sa_state \<Rightarrow> error + sa_state" where
  "sa_loop n distances_list draws st =
     (if 0 < temperature st \<and> iter st < 100000 then
        (case sa_body n distances_list (draws (iter st)) st of
           Inl e \<Rightarrow> Inl e
         | Inr st' \<Rightarrow> sa_loop n distances_list draws (st'\<lparr>iter := iter st + 1\<rparr>))
      else Inr st)"
  by pat_completeness auto
termination
  by (relation "measure (\<lambda>(n, distances_list, draws, st). 100000 - iter st)") auto

definition sa_init :: "point list \<Rightarrow> int list \<Rightarrow> real \<Rightarrow> sa_state" where
  "sa_init coordinates solution starting_efficiency =
     \<lparr>temperature = sqrt (real (length coordinates)),
      current_efficiency = starting_efficiency,
      best_efficiency = starting_efficiency,
      efficiency_list = [starting_efficiency],
      best_solution = solution,
      current_solution = solution,
      iter = 0\<rparr>"

definition do_simulated_annealing ::
  "point list \<Rightarrow> real list list \<Rightarrow> int list \<Rightarrow> real \<Rightarrow> (nat \<Rightarrow> nat \<times> nat \<times> real)
     \<Rightarrow> error + (int list \<times> real list \<times> real)" where
  "do_simulated_annealing coordinates distances_list solution starting_efficiency draws =
     ebind (sa_loop (length coordinates) distances_list draws
              (sa_init coordinates solution starting_efficiency)) (\<lambda>st.
     Inr (best_solution st, efficiency_list st, best_efficiency st))"

text \<open>
  The states the loop passes through: the initial one, and the state after each
  further iteration that the loop guard admits and whose body does not raise.
\<close>

inductive sa_reach :: "nat \<Rightarrow> real list list \<Rightarrow> (nat \<Rightarrow> nat \<times> nat \<times> real) \<Rightarrow> sa_state \<Rightarrow> sa_state \<Rightarrow> bool"
  for n distances_list draws st0 where
  sa_reach_init: "sa_reach n distances_list draws st0 st0"
| sa_reach_step: "sa_reach n distances_list draws st0 st \<Longrightarrow> sa_continue st
     \<Longrightarrow> sa_body n distances_list (draws (iter st)) st = Inr st'
     \<Longrightarrow> sa_reach n distances_list draws st0 (st'\<lparr>iter := iter st + 1\<rparr>)"


section \<open>Notions used to state the properties\<close>

text \<open>
  A tour over \<open>n\<close> cities: \<open>valid_tour\<close> asks for \<open>n\<close> entries that are all indices of
  \<open>0..n-1\<close>, \<open>is_permutation\<close> for each index exactly once. \<open>square_matrix\<close> is an
  \<open>n\<close> by \<open>n\<close> table, \<open>entry\<close> reads it at two indices in range.
\<close>

definition valid_tour :: "nat \<Rightarrow> int list \<Rightarrow> bool" where
  "valid_tour n solution \<longleftrightarrow> length solution = n \<and> (\<forall>x\<in>set solution. 0 \<le> x \<and> x < int n)"


definition square_matrix :: "nat \<Rightarrow> real list list \<Rightarrow> bool" where
  "square_matrix n m \<longleftrightarrow> length m = n \<and> (\<forall>row\<in>set m. length row = n)"

definition entry :: "real list list \<Rightarrow> int \<Rightarrow> int \<Rightarrow> real" where
  "entry m a b = m ! nat a ! nat b"

definition edge_at :: "real list list \<Rightarrow> int list \<Rightarrow> nat \<Rightarrow> real" where
  "edge_at m sol i = (if 0 < i then entry m (sol ! (i - 1)) (sol ! i) else 0)"

text \<open>A sample random source: every raw draw is \<open>0\<close>.\<close>

definition zero_draws :: "nat \<Rightarrow> nat \<times> nat \<times> real" where
  "zero_draws i = (0, 0, 0)"


section \<open>Basic facts\<close>

lemma ebind_Inr [simp]: "ebind (Inr x) f = f x" by (simp add: ebind_def)

lemma ebind_Inl [simp]: "ebind (Inl e) f = Inl e" by (simp add: ebind_def)

lemma ebind_eq_Inr: "ebind m f = Inr y \<longleftrightarrow> (\<exists>x. m = Inr x \<and> f x = Inr y)"
  by (cases m) simp_all

lemma py_index_in_range: "0 \<le> i \<Longrightarrow> i < int (length xs) \<Longrightarrow> py_index xs i = Inr (xs ! nat i)"
  by (simp add: py_index_def)


lemma valid_tour_nth: "valid_tour n sol \<Longrightarrow> i < n \<Longrightarrow> 0 \<le> sol ! i \<and> sol ! i < int n"
  by (simp add: valid_tour_def)

lemma square_row: "square_matrix n m \<Longrightarrow> 0 \<le> a \<Longrightarrow> a < int n \<Longrightarrow> length (m ! nat a) = n"
  by (simp add: square_matrix_def)

lemma lookup_valid:
  assumes "square_matrix n m" "0 \<le> a" "a < int n" "0 \<le> b" "b < int n"
  shows "ebind (py_index m a) (\<lambda>row. ebind (py_index row b) f) = f (entry m a b)"
  using assms square_row[OF assms(1-3)]
  by (simp add: py_index_in_range square_matrix_def entry_def)

lemma efficiency_loop_valid:
  assumes sq: "square_matrix n m" and vt: "valid_tour n sol"
  shows "\<forall>i\<in>set js. i < n \<Longrightarrow>
     efficiency_loop sol m js acc = Inr (acc + sum_list (map (edge_at m sol) js))"
proof (induction js arbitrary: acc)
  case Nil
  show ?case by simp
next
  case (Cons i js)
  then have i: "i < n" by simp
  show ?case
  proof (cases "0 < i")
    case False
    then show ?thesis using Cons by (simp add: edge_at_def)
  next
    case True
    have len: "length sol = n" using vt by (simp add: valid_tour_def)
    have a: "0 \<le> sol ! (i - 1) \<and> sol ! (i - 1) < int n"
      using valid_tour_nth[OF vt, of "i - 1"] i by simp
    have b: "0 \<le> sol ! i \<and> sol ! i < int n"
      using valid_tour_nth[OF vt i] .
    have ia: "py_index sol (int i - 1) = Inr (sol ! (i - 1))"
      using True i len by (simp add: py_index_def nat_diff_distrib')
    have ib: "py_index sol (int i) = Inr (sol ! i)"
      using i len by (simp add: py_index_def)
    have ra: "py_index m (sol ! (i - 1)) = Inr (m ! nat (sol ! (i - 1)))"
      using a sq by (simp add: py_index_def square_matrix_def)
    have rb: "py_index (m ! nat (sol ! (i - 1))) (sol ! i) = Inr (entry m (sol ! (i - 1)) (sol ! i))"
      using b square_row[OF sq, of "sol ! (i - 1)"] a by (simp add: py_index_def entry_def)
    show ?thesis using True Cons ia ib ra rb by (simp add: edge_at_def)
  qed
qed

lemma get_efficiency_valid:
  assumes sq: "square_matrix n m" and vt: "valid_tour n sol" and n: "0 < n"
  shows "get_efficiency sol m n =
     Inr (round4 ((\<Sum>i = 1..<n. entry m (sol ! (i - 1)) (sol ! i)) + entry m (sol ! 0) (sol ! (n - 1))))"
proof -
  have len: "length sol = n" using vt by (simp add: valid_tour_def)
  have loop: "efficiency_loop sol m [0..<n] 0 = Inr (sum_list (map (edge_at m sol) [0..<n]))"
    using efficiency_loop_valid[OF sq vt, of "[0..<n]" 0] by simp
  have "sum_list (map (edge_at m sol) [0..<n]) = (\<Sum>i = 0..<n. edge_at m sol i)"
    by (simp add: interv_sum_list_conv_sum_set_nat)
  also have "\<dots> = edge_at m sol 0 + (\<Sum>i = 1..<n. edge_at m sol i)"
    using n by (simp add: sum.atLeast_Suc_lessThan)
  also have "\<dots> = (\<Sum>i = 1..<n. entry m (sol ! (i - 1)) (sol ! i))"
    by (simp add: edge_at_def)
  finally have s: "sum_list (map (edge_at m sol) [0..<n]) = (\<Sum>i = 1..<n. entry m (sol ! (i - 1)) (sol ! i))" .
  have a: "0 \<le> sol ! 0 \<and> sol ! 0 < int n" using valid_tour_nth[OF vt n] .
  have b: "0 \<le> sol ! (n - 1) \<and> sol ! (n - 1) < int n"
    using valid_tour_nth[OF vt, of "n - 1"] n by simp
  have i0: "py_index sol 0 = Inr (sol ! 0)" using n len by (simp add: py_index_def)
  have il: "py_index sol (int n - 1) = Inr (sol ! (n - 1))"
    using n len by (simp add: py_index_def nat_diff_distrib')
  have ra: "py_index m (sol ! 0) = Inr (m ! nat (sol ! 0))"
    using a sq by (simp add: py_index_def square_matrix_def)
  have rb: "py_index (m ! nat (sol ! 0)) (sol ! (n - 1)) = Inr (entry m (sol ! 0) (sol ! (n - 1)))"
    using b square_row[OF sq, of "sol ! 0"] a by (simp add: py_index_def entry_def)
  show ?thesis
    using i0 il ra rb by (simp add: get_efficiency_def loop s)
qed



lemma i_to_j_sym: "i_to_j p q = i_to_j q p"
  by (simp add: i_to_j_def power2_commute)

lemma round4_0: "round4 0 = 0" by (simp add: round4_def round_half_even_def)


section \<open>Facts about the annealing loop\<close>

lemma randint_range: "randint a b r = Inr x \<Longrightarrow> a \<le> x \<and> x \<le> b"
proof -
  assume h: "randint a b r = Inr x"
  then have ab: "a \<le> b" by (simp add: randint_def split: if_splits)
  from h ab have x: "x = a + int (r mod nat (b - a + 1))" by (simp add: randint_def)
  have "r mod nat (b - a + 1) < nat (b - a + 1)" using ab by (intro mod_less_divisor) simp
  then have "int (r mod nat (b - a + 1)) < int (nat (b - a + 1))" by (simp only: of_nat_less_iff)
  also have "int (nat (b - a + 1)) = b - a + 1" using ab by simp
  finally show ?thesis using x by simp
qed

lemma randint_Inl: "randint a b r = Inl e \<Longrightarrow> b < a"
  by (simp add: randint_def split: if_splits)

lemma randint_total: "a \<le> b \<Longrightarrow> \<exists>x. randint a b r = Inr x"
  by (simp add: randint_def)


lemma mset_reverse_segment: "mset (reverse_segment c b a) = mset c"
proof -
  have d: "drop (nat b + nat a) c = drop (nat a) (drop (nat b) c)"
    by (simp add: add.commute)
  have "mset (reverse_segment c b a)
      = mset (take (nat b) c)
        + (mset (take (nat a) (drop (nat b) c)) + mset (drop (nat a) (drop (nat b) c)))"
    unfolding reverse_segment_def d by simp
  also have "mset (take (nat a) (drop (nat b) c)) + mset (drop (nat a) (drop (nat b) c))
           = mset (drop (nat b) c)"
    by (metis append_take_drop_id mset_append)
  also have "mset (take (nat b) c) + mset (drop (nat b) c) = mset c"
    by (metis append_take_drop_id mset_append)
  finally show ?thesis .
qed

lemma perturb_Inr:
  assumes "perturb n sol ra rb = Inr cand"
  shows "\<exists>L S. 2 \<le> L \<and> L \<le> int n - 1 \<and> 0 \<le> S \<and> S \<le> int n - L \<and>
           cand = reverse_segment sol S L"
proof -
  from assms obtain L where L: "randint 2 (int n - 1) ra = Inr L"
    and r: "ebind (randint 0 (int n - L) rb) (\<lambda>num_b. Inr (reverse_segment sol num_b L)) = Inr cand"
    by (auto simp: perturb_def ebind_eq_Inr)
  from r obtain S where S: "randint 0 (int n - L) rb = Inr S" and c: "cand = reverse_segment sol S L"
    by (auto simp: ebind_eq_Inr)
  from randint_range[OF L] randint_range[OF S] c show ?thesis by blast
qed

lemma perturb_Inl: "perturb n sol ra rb = Inl e \<Longrightarrow> n < 3"
proof (rule ccontr)
  assume h: "perturb n sol ra rb = Inl e" and "\<not> n < 3"
  then have n: "3 \<le> n" by simp
  then obtain L where L: "randint 2 (int n - 1) ra = Inr L"
    using randint_total[of 2 "int n - 1" ra] by auto
  from randint_range[OF L] obtain S where S: "randint 0 (int n - L) rb = Inr S"
    using randint_total[of 0 "int n - L" rb] by auto
  from h L S show False by (simp add: perturb_def)
qed

lemma perturb_total: "3 \<le> n \<Longrightarrow> \<exists>cand. perturb n sol ra rb = Inr cand"
  using perturb_Inl[of n sol ra rb] by (cases "perturb n sol ra rb") auto

lemma perturb_mset: "perturb n sol ra rb = Inr cand \<Longrightarrow> mset cand = mset sol"
  using perturb_Inr[of n sol ra rb cand] by (auto simp: mset_reverse_segment)


lemma perturb_valid: "perturb n sol ra rb = Inr cand \<Longrightarrow> valid_tour n sol \<Longrightarrow> valid_tour n cand"
proof -
  assume p: "perturb n sol ra rb = Inr cand" and v: "valid_tour n sol"
  from perturb_mset[OF p] have "length cand = length sol" "set cand = set sol"
    by (auto dest: mset_eq_length mset_eq_setD)
  with v show ?thesis by (simp add: valid_tour_def)
qed


lemmas sa_body_unfold = sa_body_def ebind_eq_Inr get_probability_def Let_def

lemma sa_body_best_le: "sa_body n m d st = Inr st' \<Longrightarrow> best_efficiency st' \<le> best_efficiency st"
  by (cases d) (auto simp: sa_body_unfold split: if_splits)

lemma sa_body_best_le_current:
  "sa_body n m d st = Inr st' \<Longrightarrow> best_efficiency st \<le> current_efficiency st
     \<Longrightarrow> best_efficiency st' \<le> current_efficiency st'"
  by (cases d) (auto simp: sa_body_unfold split: if_splits)

lemma sa_body_iter: "sa_body n m d st = Inr st' \<Longrightarrow> iter st' = iter st"
  by (cases d) (auto simp: sa_body_unfold split: if_splits)

lemma sa_body_temperature:
  "sa_body n m d st = Inr st' \<Longrightarrow> temperature st' = temperature st * 0.995"
  by (cases d) (auto simp: sa_body_unfold split: if_splits)

lemma sa_body_trace:
  "sa_body n m d st = Inr st' \<Longrightarrow>
     efficiency_list st' = efficiency_list st @ [current_efficiency st']"
  by (cases d) (auto simp: sa_body_unfold split: if_splits)

lemma sa_body_best_consistent:
  "sa_body n m d st = Inr st' \<Longrightarrow>
     get_efficiency (best_solution st) m n = Inr (best_efficiency st) \<Longrightarrow>
     get_efficiency (best_solution st') m n = Inr (best_efficiency st')"
  by (cases d) (auto simp: sa_body_unfold split: if_splits)

lemma sa_body_current_consistent:
  "sa_body n m d st = Inr st' \<Longrightarrow>
     get_efficiency (current_solution st) m n = Inr (current_efficiency st) \<Longrightarrow>
     get_efficiency (current_solution st') m n = Inr (current_efficiency st')"
  by (cases d) (auto simp: sa_body_unfold split: if_splits)

lemma sa_body_current_cases:
  "sa_body n m (ra, rb, u) st = Inr st' \<Longrightarrow>
     current_solution st' = current_solution st
     \<or> perturb n (current_solution st) ra rb = Inr (current_solution st')"
  by (auto simp: sa_body_unfold split: if_splits)

lemma sa_body_best_cases:
  "sa_body n m (ra, rb, u) st = Inr st' \<Longrightarrow>
     best_solution st' = best_solution st
     \<or> perturb n (current_solution st) ra rb = Inr (best_solution st')"
  by (auto simp: sa_body_unfold split: if_splits)

declare sa_loop.simps [simp del]

lemma sa_body_total:
  assumes n: "3 \<le> n" and sq: "square_matrix n m"
    and vt: "valid_tour n (current_solution st)" and t: "temperature st \<noteq> 0"
  shows "\<exists>st'. sa_body n m d st = Inr st'"
proof -
  obtain ra rb u where d: "d = (ra, rb, u)" by (cases d) auto
  obtain cand where c: "perturb n (current_solution st) ra rb = Inr cand"
    using perturb_total[OF n] by blast
  have "valid_tour n cand" using perturb_valid[OF c vt] .
  then obtain ce where e: "get_efficiency cand m n = Inr ce"
    using get_efficiency_valid[OF sq, of cand] n by auto
  show ?thesis using t by (simp add: sa_body_def d c e get_probability_def Let_def)
qed

lemma sa_body_valid:
  assumes b: "sa_body n m d st = Inr st'" and v: "valid_tour n (current_solution st)"
  shows "valid_tour n (current_solution st')"
proof -
  obtain ra rb u where d: "d = (ra, rb, u)" by (cases d) auto
  from b d have "current_solution st' = current_solution st
     \<or> perturb n (current_solution st) ra rb = Inr (current_solution st')"
    using sa_body_current_cases by blast
  then show ?thesis using v perturb_valid by metis
qed


lemma sa_loop_stop: "\<not> sa_continue st \<Longrightarrow> sa_loop n m draws st = Inr st"
  by (subst sa_loop.simps) (auto simp: sa_continue_def)

lemma sa_loop_go:
  "sa_continue st \<Longrightarrow> sa_body n m (draws (iter st)) st = Inr st'
     \<Longrightarrow> sa_loop n m draws st = sa_loop n m draws (st'\<lparr>iter := iter st + 1\<rparr>)"
  by (subst sa_loop.simps) (auto simp: sa_continue_def)

lemma sa_loop_raise:
  "sa_continue st \<Longrightarrow> sa_body n m (draws (iter st)) st = Inl e \<Longrightarrow> sa_loop n m draws st = Inl e"
  by (subst sa_loop.simps) (auto simp: sa_continue_def)

lemma sa_loop_reach:
  "sa_reach n m draws st0 st \<Longrightarrow> sa_loop n m draws st = Inr stf
     \<Longrightarrow> sa_reach n m draws st0 stf \<and> \<not> sa_continue stf"
proof (induction n m draws st rule: sa_loop.induct)
  case (1 n m draws st)
  show ?case
  proof (cases "sa_continue st")
    case False
    then show ?thesis using "1.prems" by (simp add: sa_loop_stop)
  next
    case True
    show ?thesis
    proof (cases "sa_body n m (draws (iter st)) st")
      case (Inl e)
      then show ?thesis using True "1.prems"(2) by (simp add: sa_loop_raise)
    next
      case (Inr st')
      have g: "0 < temperature st \<and> iter st < 100000" using True by (simp add: sa_continue_def)
      have r: "sa_reach n m draws st0 (st'\<lparr>iter := iter st + 1\<rparr>)"
        using sa_reach_step[OF "1.prems"(1) True Inr] .
      have l: "sa_loop n m draws (st'\<lparr>iter := iter st + 1\<rparr>) = Inr stf"
        using "1.prems"(2) sa_loop_go[where draws = draws, OF True Inr] by simp
      show ?thesis using "1.IH"[OF g Inr r l] .
    qed
  qed
qed

lemma sa_loop_total:
  "3 \<le> n \<Longrightarrow> square_matrix n m \<Longrightarrow> valid_tour n (current_solution st)
     \<Longrightarrow> 0 < temperature st \<Longrightarrow> iter st \<le> 100000
     \<Longrightarrow> \<exists>stf. sa_loop n m draws st = Inr stf \<and> iter stf = 100000"
proof (induction n m draws st rule: sa_loop.induct)
  case (1 n m draws st)
  show ?case
  proof (cases "sa_continue st")
    case False
    then have "iter st = 100000" using "1.prems" by (simp add: sa_continue_def)
    then show ?thesis using False by (simp add: sa_loop_stop)
  next
    case True
    have g: "0 < temperature st \<and> iter st < 100000" using True by (simp add: sa_continue_def)
    obtain st' where b: "sa_body n m (draws (iter st)) st = Inr st'"
      using sa_body_total[OF "1.prems"(1,2,3), where d = "draws (iter st)"] g by auto
    have v: "valid_tour n (current_solution (st'\<lparr>iter := iter st + 1\<rparr>))"
      using sa_body_valid[OF b "1.prems"(3)] by simp
    have t: "0 < temperature (st'\<lparr>iter := iter st + 1\<rparr>)"
      using sa_body_temperature[OF b] g by simp
    have i: "iter (st'\<lparr>iter := iter st + 1\<rparr>) \<le> 100000" using g by simp
    show ?thesis
      using "1.IH"[OF g b "1.prems"(1,2) v t i] sa_loop_go[where draws = draws, OF True b] by simp
  qed
qed

lemma round4_of_int: "round4 (of_int k) = of_int k"
  by (simp add: round4_def round_half_even_def)

lemma sa_reach_trace:
  "sa_reach n m draws (sa_init cs sol start) st \<Longrightarrow>
     length (efficiency_list st) = iter st + 1 \<and> hd (efficiency_list st) = start \<and> iter st \<le> 100000"
proof (induction rule: sa_reach.induct)
  case sa_reach_init
  show ?case by (simp add: sa_init_def)
next
  case (sa_reach_step st st')
  then have ne: "efficiency_list st \<noteq> []" by auto
  from sa_reach_step show ?case
    using sa_body_trace[of n m "draws (iter st)" st st'] ne
    by (auto simp: sa_continue_def)
qed

lemma sa_reach_best:
  "sa_reach n m draws (sa_init cs sol start) st \<Longrightarrow>
     best_efficiency st \<le> current_efficiency st \<and> best_efficiency st \<le> start"
proof (induction rule: sa_reach.induct)
  case sa_reach_init
  show ?case by (simp add: sa_init_def)
next
  case (sa_reach_step st st')
  then show ?case
    using sa_body_best_le[of n m "draws (iter st)" st st']
      sa_body_best_le_current[of n m "draws (iter st)" st st']
    by auto
qed

lemma sa_reach_consistent:
  "sa_reach n m draws (sa_init cs sol start) st \<Longrightarrow> get_efficiency sol m n = Inr start \<Longrightarrow>
     get_efficiency (best_solution st) m n = Inr (best_efficiency st)"
proof (induction rule: sa_reach.induct)
  case sa_reach_init
  then show ?case by (simp add: sa_init_def)
next
  case (sa_reach_step st st')
  then show ?case
    using sa_body_best_consistent[of n m "draws (iter st)" st st']
    by auto
qed

lemma do_simulated_annealing_Inr:
  "do_simulated_annealing cs m sol start draws = Inr (bs, el, be) \<longleftrightarrow>
     (\<exists>stf. sa_loop (length cs) m draws (sa_init cs sol start) = Inr stf \<and>
        bs = best_solution stf \<and> el = efficiency_list stf \<and> be = best_efficiency stf)"
  by (auto simp: do_simulated_annealing_def ebind_eq_Inr)

lemma do_simulated_annealing_reach:
  assumes "do_simulated_annealing cs m sol start draws = Inr (bs, el, be)"
  obtains stf where "sa_reach (length cs) m draws (sa_init cs sol start) stf"
    "\<not> sa_continue stf" "bs = best_solution stf" "el = efficiency_list stf" "be = best_efficiency stf"
proof -
  from assms obtain stf where l: "sa_loop (length cs) m draws (sa_init cs sol start) = Inr stf"
    and r: "bs = best_solution stf" "el = efficiency_list stf" "be = best_efficiency stf"
    by (auto simp: do_simulated_annealing_Inr)
  from sa_loop_reach[OF sa_reach_init l] r that show ?thesis by blast
qed

lemma do_simulated_annealing_total:
  assumes n: "3 \<le> length cs" and sq: "square_matrix (length cs) m" and vt: "valid_tour (length cs) sol"
  shows "\<exists>stf. sa_loop (length cs) m draws (sa_init cs sol start) = Inr stf \<and> iter stf = 100000
           \<and> do_simulated_annealing cs m sol start draws
               = Inr (best_solution stf, efficiency_list stf, best_efficiency stf)"
proof -
  have v: "valid_tour (length cs) (current_solution (sa_init cs sol start))"
    using vt by (simp add: sa_init_def)
  have t: "0 < temperature (sa_init cs sol start)" using n by (auto simp: sa_init_def)
  have i: "iter (sa_init cs sol start) \<le> 100000" by (simp add: sa_init_def)
  from sa_loop_total[OF n sq v t i, of draws] obtain stf
    where "sa_loop (length cs) m draws (sa_init cs sol start) = Inr stf" "iter stf = 100000"
    by blast
  then show ?thesis by (auto simp: do_simulated_annealing_def)
qed

lemma efficiency_triangle:
  "get_efficiency [0, 1, 2] [[0, 3, 4], [3, 0, 5], [4, 5, 0]] 3 = Inr 12"
  using round4_of_int[of 12]
  by (simp add: get_efficiency_def py_index_def upt_rec)

section \<open>Properties of the annealing loop\<close>

text \<open>
  C3. In every state that \<^verbatim>\<open>do_simulated_annealing\<close> passes through (the initial one and
  the one after each iteration), \<open>best_efficiency \<le> current_efficiency\<close> and
  \<open>best_efficiency \<le> starting_efficiency\<close>; an iteration never increases \<open>best_efficiency\<close>;
  and the \<open>best_efficiency\<close> returned is at most the \<open>starting_efficiency\<close> passed in.
\<close>

theorem best_efficiency_invariants:
  assumes "sa_reach (length cs) m draws (sa_init cs sol start) st"
  shows "best_efficiency st \<le> current_efficiency st
       \<and> best_efficiency st \<le> start
       \<and> (\<forall>st'. sa_body (length cs) m (draws (iter st)) st = Inr st'
              \<longrightarrow> best_efficiency st' \<le> best_efficiency st)
       \<and> (\<forall>bs el be. do_simulated_annealing cs m sol start draws = Inr (bs, el, be)
              \<longrightarrow> be \<le> start)"
proof -
  have "be \<le> start" if "do_simulated_annealing cs m sol start draws = Inr (bs, el, be)" for bs el be
    using do_simulated_annealing_reach[OF that] sa_reach_best by metis
  then show ?thesis using sa_reach_best[OF assms] sa_body_best_le by blast
qed

theorem best_efficiency_invariants_witness:
  "\<exists>bs el be. do_simulated_annealing [(0, 0), (0, 3), (4, 0)] [[0, 3, 4], [3, 0, 5], [4, 5, 0]]
                 [0, 1, 2] 12 zero_draws = Inr (bs, el, be) \<and> be \<le> 12"
proof -
  have n: "3 \<le> length [(0, 0), (0, 3), (4::int, 0::int)]"
    by simp
  have sq: "square_matrix (length [(0, 0), (0, 3), (4::int, 0::int)]) [[0, 3, 4], [3, 0, 5], [4, 5, 0]]"
    by (simp add: square_matrix_def)
  have vt: "valid_tour (length [(0, 0), (0, 3), (4::int, 0::int)]) [0, 1, 2]"
    by (simp add: valid_tour_def)
  obtain stf :: sa_state where
    "do_simulated_annealing [(0, 0), (0, 3), (4, 0)] [[0, 3, 4], [3, 0, 5], [4, 5, 0]] [0, 1, 2] 12 zero_draws
       = Inr (best_solution stf, efficiency_list stf, best_efficiency stf)"
    using do_simulated_annealing_total[OF n sq vt, of zero_draws 12]
    by blast
  then show ?thesis
    using best_efficiency_invariants [OF sa_reach_init]
    by blast
qed

text \<open>
  C10. When the caller passes \<open>starting_efficiency = get_efficiency(current_solution,
  distances_list, N)\<close>, then in every state of the loop and at return the reported best
  score is the score of the reported best tour:
  \<open>get_efficiency(best_solution, distances_list, N) = best_efficiency\<close>.
\<close>

theorem best_solution_consistent:
  assumes "get_efficiency sol m (length cs) = Inr start"
  shows "(\<forall>st. sa_reach (length cs) m draws (sa_init cs sol start) st
            \<longrightarrow> get_efficiency (best_solution st) m (length cs) = Inr (best_efficiency st))
       \<and> (\<forall>bs el be. do_simulated_annealing cs m sol start draws = Inr (bs, el, be)
            \<longrightarrow> get_efficiency bs m (length cs) = Inr be)"
proof -
  have a: "get_efficiency (best_solution st) m (length cs) = Inr (best_efficiency st)"
    if "sa_reach (length cs) m draws (sa_init cs sol start) st" for st
    using sa_reach_consistent[OF that assms] .
  have "get_efficiency bs m (length cs) = Inr be"
    if "do_simulated_annealing cs m sol start draws = Inr (bs, el, be)" for bs el be
    using do_simulated_annealing_reach[OF that] a by metis
  with a show ?thesis by blast
qed

theorem best_solution_consistent_witness:
  "\<exists>bs el be. do_simulated_annealing [(0, 0), (0, 3), (4, 0)] [[0, 3, 4], [3, 0, 5], [4, 5, 0]]
                 [0, 1, 2] 12 zero_draws = Inr (bs, el, be)
      \<and> get_efficiency bs [[0, 3, 4], [3, 0, 5], [4, 5, 0]] 3 = Inr be"
proof -
  have n: "3 \<le> length [(0, 0), (0, 3), (4::int, 0::int)]"
    by simp
  have sq: "square_matrix (length [(0, 0), (0, 3), (4::int, 0::int)]) [[0, 3, 4], [3, 0, 5], [4, 5, 0]]"
    by (simp add: square_matrix_def)
  have vt: "valid_tour (length [(0, 0), (0, 3), (4::int, 0::int)]) [0, 1, 2]"
    by (simp add: valid_tour_def)
  obtain stf :: sa_state where r:
    "do_simulated_annealing [(0, 0), (0, 3), (4, 0)] [[0, 3, 4], [3, 0, 5], [4, 5, 0]] [0, 1, 2] 12 zero_draws
       = Inr (best_solution stf, efficiency_list stf, best_efficiency stf)"
    using do_simulated_annealing_total[OF n sq vt, of zero_draws 12]
    by blast
  have e: "get_efficiency [0, 1, 2] [[0, 3, 4], [3, 0, 5], [4, 5, 0]]
             (length [(0, 0), (0, 3), (4::int, 0::int)]) = Inr 12"
    using efficiency_triangle by (simp add: numeral_3_eq_3)
  from best_solution_consistent [OF e, of zero_draws] r show ?thesis
    by (metis length_Cons list.size(3) numeral_3_eq_3)
qed



text \<open>
  C8, as stated for every \<open>N \<ge> 2\<close>, fails at \<open>N = 2\<close>: the first segment-length draw
  \<^verbatim>\<open>random.randint(2, 1)\<close> raises, and no trace is returned.
\<close>

theorem annealing_raises_for_two_cities:
  "do_simulated_annealing [(0, 0), (0, 1)] (get_distances_list [(0, 0), (0, 1)]) [0, 1] 2 zero_draws
     = Inl ValueError"
  by (simp add: do_simulated_annealing_def sa_init_def sa_loop.simps [of _ _ _ "\<lparr>temperature = sqrt 2,
      current_efficiency = 2, best_efficiency = 2, efficiency_list = [2], best_solution = [0, 1],
      current_solution = [0, 1], iter = 0\<rparr>"] sa_body_def perturb_def randint_def zero_draws_def)

text \<open>
  C8, amended. For \<open>N \<ge> 3\<close> coordinates, an \<open>N\<close> by \<open>N\<close> matrix and a tour of \<open>N\<close> valid
  indices, \<^verbatim>\<open>do_simulated_annealing\<close> returns: the loop stops after exactly 100000
  iterations, no state of the loop has run more than 100000 iterations, and the trace has
  length \<open>iterations + 1\<close> with the starting efficiency as its first element.
\<close>

theorem annealing_runs_to_iteration_cap:
  assumes "3 \<le> length cs" and "square_matrix (length cs) m" and "valid_tour (length cs) sol"
  shows "(\<exists>stf. sa_loop (length cs) m draws (sa_init cs sol start) = Inr stf
             \<and> iter stf = 100000
             \<and> do_simulated_annealing cs m sol start draws
                 = Inr (best_solution stf, efficiency_list stf, best_efficiency stf)
             \<and> length (efficiency_list stf) = iter stf + 1
             \<and> hd (efficiency_list stf) = start)
       \<and> (\<forall>st. sa_reach (length cs) m draws (sa_init cs sol start) st
             \<longrightarrow> iter st \<le> 100000 \<and> length (efficiency_list st) = iter st + 1)"
proof -
  obtain stf :: sa_state where l: "sa_loop (length cs) m draws (sa_init cs sol start) = Inr stf"
    and i: "iter stf = 100000"
    and d: "do_simulated_annealing cs m sol start draws
              = Inr (best_solution stf, efficiency_list stf, best_efficiency stf)"
    using do_simulated_annealing_total[OF assms, of draws start] by blast
  have "sa_reach (length cs) m draws (sa_init cs sol start) stf"
    using sa_loop_reach[OF sa_reach_init l] by simp
  from sa_reach_trace[OF this] l i d sa_reach_trace[of "length cs" m draws cs sol start]
  show ?thesis by blast
qed

theorem annealing_runs_to_iteration_cap_witness:
  "\<exists>bs el be. do_simulated_annealing [(0, 0), (0, 3), (4, 0)] [[0, 3, 4], [3, 0, 5], [4, 5, 0]]
                 [0, 1, 2] 12 zero_draws = Inr (bs, el, be)
      \<and> length el = 100001 \<and> hd el = 12"
proof -
  have n: "3 \<le> length [(0, 0), (0, 3), (4::int, 0::int)]"
    by simp
  have sq: "square_matrix (length [(0, 0), (0, 3), (4::int, 0::int)]) [[0, 3, 4], [3, 0, 5], [4, 5, 0]]"
    by (simp add: square_matrix_def)
  have vt: "valid_tour (length [(0, 0), (0, 3), (4::int, 0::int)]) [0, 1, 2]"
    by (simp add: valid_tour_def)
  from annealing_runs_to_iteration_cap [OF n sq vt, of zero_draws 12]
  obtain stf :: sa_state where
    "do_simulated_annealing [(0, 0), (0, 3), (4, 0)] [[0, 3, 4], [3, 0, 5], [4, 5, 0]] [0, 1, 2] 12 zero_draws
       = Inr (best_solution stf, efficiency_list stf, best_efficiency stf)"
    "length (efficiency_list stf) = iter stf + 1" "iter stf = 100000" "hd (efficiency_list stf) = 12"
    by blast
  then show ?thesis by simp
qed

section \<open>Facts about the greedy tour and the whole run\<close>

lemma first_pos_Some:
  "first_pos xs v = Some k \<Longrightarrow> k < length xs \<and> xs ! k = v \<and> (\<forall>j<k. xs ! j \<noteq> v)"
proof (induction xs arbitrary: k)
  case Nil
  then show ?case by simp
next
  case (Cons x xs)
  show ?case
  proof (cases "x = v")
    case True
    then show ?thesis using Cons.prems by simp
  next
    case False
    then obtain k' where k': "first_pos xs v = Some k'" "k = Suc k'"
      using Cons.prems by auto
    from Cons.IH[OF k'(1)] False k'(2) show ?thesis
      by (auto simp: nth_Cons split: nat.splits)
  qed
qed

lemma py_remove_Inr: "py_remove xs x = Inr ys \<Longrightarrow> x \<in> set xs \<and> ys = remove1 x xs"
  by (simp add: py_remove_def split: if_splits)

lemma greedy_step_Inr:
  assumes "greedy_step m cur temp = Inr (nxt, temp')"
  shows "nxt \<in> set temp \<and> temp' = remove1 nxt temp"
  using assms by (auto simp: greedy_step_def ebind_eq_Inr dest: py_remove_Inr)




lemma round4_one: "round4 1 = 1" using round4_of_int[of 1] by simp

lemma round4_two: "round4 2 = 2" using round4_of_int[of 2] by simp

lemma distances_line:
  "get_distances_list [(0, 0), (1, 0), (2, 0)] = [[0, 1, 2], [1, 0, 1], [2, 1, 0]]"
  by (simp add: get_distances_list_def i_to_j_def round4_0 round4_one round4_two)


















lemma get_coordinates_length:
  "get_coordinates split_fields int_of coordinates_file = Inr cs \<Longrightarrow> length cs = length coordinates_file"
  by (induction coordinates_file arbitrary: cs) (auto simp: ebind_eq_Inr)









lemma collect_distances_valid:
  assumes sq: "square_matrix n m" and c: "0 \<le> cur" "cur < int n"
  shows "\<forall>i\<in>set temp. 0 \<le> i \<and> i < int n \<Longrightarrow>
     collect_distances m cur temp = Inr (map (entry m cur) temp)"
proof (induction temp)
  case Nil
  show ?case by simp
next
  case (Cons i temp)
  then have i: "0 \<le> i" "i < int n" by simp_all
  have "lookup2 m cur i = Inr (entry m cur i)"
    using sq c i square_row[OF sq c] by (simp add: lookup2_def py_index_def square_matrix_def entry_def)
  then show ?case using Cons by simp
qed

lemma fold_min_least: "fold min ys (y::real) \<in> set (y # ys) \<and> (\<forall>d\<in>set (y # ys). fold min ys y \<le> d)"
proof -
  have "fold min ys y = Min (set (y # ys))" by (rule Min.set_eq_fold [symmetric])
  then show ?thesis using Min_in[of "set (y # ys)"] Min_le[of "set (y # ys)"] by auto
qed

lemma py_min_Inr: "py_min ds = Inr least \<Longrightarrow> least \<in> set ds \<and> (\<forall>d\<in>set ds. least \<le> d)"
  using fold_min_least by (cases ds) (auto simp: py_min_def)

text \<open>
  When a pass of the greedy loop does not raise, the city it appends is an unvisited city
  at minimum distance from the current one, the lowest index among those.
\<close>

lemma greedy_step_nearest:
  assumes s: "greedy_step m cur temp = Inr (nxt, temp')"
    and sq: "square_matrix n m" and c: "0 \<le> cur" "cur < int n"
    and t: "\<forall>i\<in>set temp. 0 \<le> i \<and> i < int n"
  shows "nxt \<in> set temp \<and> temp' = remove1 nxt temp
       \<and> (\<forall>i\<in>set temp. entry m cur nxt \<le> entry m cur i)
       \<and> (\<forall>i\<in>set temp. entry m cur i = entry m cur nxt \<longrightarrow> nxt \<le> i)"
proof -
  have row: "py_index m cur = Inr (m ! nat cur)"
    using sq c by (simp add: py_index_def square_matrix_def)
  from s collect_distances_valid[OF sq c t] row obtain least where
    least: "py_min (map (entry m cur) temp) = Inr least"
    and f: "py_list_index (m ! nat cur) least = Inr nxt"
    by (auto simp: greedy_step_def ebind_eq_Inr)
  from f obtain k where k: "first_pos (m ! nat cur) least = Some k" "nxt = int k"
    by (auto simp: py_list_index_def split: option.splits)
  from first_pos_Some[OF k(1)] have e: "m ! nat cur ! k = least"
    and first: "\<forall>j<k. m ! nat cur ! j \<noteq> least" by simp_all
  have en: "entry m cur nxt = least" using e k(2) by (simp add: entry_def)
  from py_min_Inr[OF least] have le: "\<forall>i\<in>set temp. least \<le> entry m cur i" by simp
  have low: "nxt \<le> i" if "i \<in> set temp" "entry m cur i = entry m cur nxt" for i
  proof -
    have "m ! nat cur ! nat i = least" using that(2) en by (simp add: entry_def)
    then have "\<not> nat i < k" using first by auto
    then show ?thesis using k(2) t that(1) by auto
  qed
  from greedy_step_Inr[OF s] en le low show ?thesis by auto
qed

section \<open>Properties of the greedy tour and the whole run\<close>

text \<open>
  C1 claims that \<^verbatim>\<open>get_initial_solution\<close> returns a permutation of \<open>0..N-1\<close> for every
  outcome of the random choices. The start city is drawn by \<^verbatim>\<open>random.randint(0, N)\<close>, which
  includes \<open>N\<close>; with that outcome \<^verbatim>\<open>temp_list.remove\<close> raises. (Whenever the function
  returns, its result is a permutation: \<open>get_initial_solution_permutation\<close>.)
\<close>

theorem start_index_out_of_range:
  "get_initial_solution (get_distances_list [(0, 0), (0, 1)]) [(0, 0), (0, 1)] 2 = Inl ValueError"
  by (simp add: get_initial_solution_def randint_def py_remove_def upto.simps)

text \<open>
  C4 claims that every step appends the nearest unvisited city, the lowest index winning
  a tie among the unvisited ones. The minimum is taken over the unvisited cities, but its
  index is looked up in the whole row, so a visited city at the same distance and a lower
  index is found first and \<^verbatim>\<open>temp_list.remove\<close> raises: three cities in a line, start
  \<open>0\<close>, second step. (Whenever a step does not raise, the city it appends is as claimed:
  \<open>greedy_step_nearest\<close>.)
\<close>

theorem nearest_lookup_hits_visited_city:
  "greedy_step (get_distances_list [(0, 0), (1, 0), (2, 0)]) 1 [2] = Inl ValueError
   \<and> get_initial_solution (get_distances_list [(0, 0), (1, 0), (2, 0)]) [(0, 0), (1, 0), (2, 0)] 0
       = Inl ValueError"
  by (simp add: distances_line get_initial_solution_def greedy_step_def randint_def py_remove_def
      py_index_def py_min_def py_list_index_def lookup2_def upto.simps numeral_3_eq_3)





end
